theory Spec2Isabelle
  imports Main "HOL-Library.Word"
begin

section \<open>Data model of the producer (producer.go)\<close>

text \<open>
  A Go \<open>error\<close> value is modelled by its message; \<open>nil\<close> is \<open>None\<close> of
  \<open>error option\<close>. The global \<open>var n uint64\<close> is a 64-bit word, so \<open>n++\<close> wraps.
\<close>

datatype error = Error string

type_synonym u64 = "64 word"

record Job =
  RepositoryID :: u64

text \<open>
  A \<open>queue.Job\<close> of the queue library, as far as the producer sees it: the payload that
  \<open>job.Encode(j)\<close> fills in.
\<close>

type_synonym qjob = "8 word list"

text \<open>\<open>sync.Once\<close>: not yet used, its function running, or done.\<close>

datatype once = Fresh | InProgress | Finished

text \<open>
  The struct \<open>Producer\<close>. \<open>Notifiers.Done\<close> is a Go function value that may be
  \<open>nil\<close>; a callback acts on whatever its closure captured, the observer state \<open>'u\<close>.
  The field \<open>queue\<close> holds the state of the queue behind the \<open>queue.Queue\<close>
  interface, \<open>wg\<close> the counter of the \<open>sync.WaitGroup\<close>.
\<close>

record ('q, 'u) Producer =
  Notifiers_Done :: "(Job \<Rightarrow> error option \<Rightarrow> 'u \<Rightarrow> 'u) option"
  queue :: 'q
  running :: bool
  startOnce :: once
  stopOnce :: once
  wg :: int

text \<open>
  The memory the producer's code works on: the producer itself, the package variable
  \<open>n\<close> and the observer state of the notifier.
\<close>

record ('q, 'u) mem =
  producer :: "('q, 'u) Producer"
  n_global :: u64
  observer :: 'u

text \<open>
  The two operations of the queue library the loop calls. They are not code of
  producer.go and are taken as parameters: \<open>Encode\<close> yields the payload or an error,
  \<open>Publish\<close> yields an error or \<open>nil\<close> and the queue afterwards.
\<close>

record 'q env =
  Encode :: "Job \<Rightarrow> error + qjob"
  Publish :: "'q \<Rightarrow> qjob \<Rightarrow> error option \<times> 'q"

section \<open>The sequential code\<close>

definition NewProducer :: "'q \<Rightarrow> ('q, 'u) Producer" where
  "NewProducer q =
     \<lparr>Notifiers_Done = None, queue = q, running = False,
      startOnce = Fresh, stopOnce = Fresh, wg = 0\<rparr>"

definition IsRunning :: "('q, 'u) Producer \<Rightarrow> bool" where
  "IsRunning p = running p"

text \<open>
  \<open>next\<close>: \<open>n++\<close>, then the job with \<open>RepositoryID: n\<close> and a \<open>nil\<close> error. The sleep
  of 500 ms has no effect on the memory and is left out.
\<close>

definition next_job :: "('q, 'u) mem \<Rightarrow> (Job \<times> error option) \<times> ('q, 'u) mem" where
  "next_job m =
     (let m' = m\<lparr>n_global := n_global m + 1\<rparr>
      in ((\<lparr>RepositoryID = n_global m'\<rparr>, None), m'))"

text \<open>\<open>notifyDone\<close>: returns at once when the notifier is \<open>nil\<close>, calls it otherwise.\<close>

definition notifyDone :: "Job \<Rightarrow> error option \<Rightarrow> ('q, 'u) mem \<Rightarrow> ('q, 'u) mem" where
  "notifyDone j err m =
     (case Notifiers_Done (producer m) of
        None \<Rightarrow> m
      | Some f \<Rightarrow> m\<lparr>observer := f j err (observer m)\<rparr>)"

text \<open>
  The body of the loop in \<open>start\<close> from the test of \<open>err\<close> on, given what
  \<open>p.next()\<close> returned: \<open>continue\<close> on a source error; otherwise encode, publish and
  notify. Every path ends the iteration, so the result is the memory at the next loop
  head.
\<close>

definition after_next ::
  "'q env \<Rightarrow> Job \<Rightarrow> error option \<Rightarrow> ('q, 'u) mem \<Rightarrow> ('q, 'u) mem" where
  "after_next E j err m =
     (case err of
        Some e \<Rightarrow> m
      | None \<Rightarrow>
          (case Encode E j of
             Inl e \<Rightarrow> notifyDone j (Some e) m
           | Inr job \<Rightarrow>
               (case Publish E (queue (producer m)) job of
                  (Some e, q') \<Rightarrow> notifyDone j (Some e) (m\<lparr>producer := (producer m)\<lparr>queue := q'\<rparr>\<rparr>)
                | (None, q') \<Rightarrow> notifyDone j None (m\<lparr>producer := (producer m)\<lparr>queue := q'\<rparr>\<rparr>))))"

text \<open>One whole iteration of the loop body: \<open>j, err := p.next()\<close> and the rest.\<close>

definition loop_body :: "'q env \<Rightarrow> ('q, 'u) mem \<Rightarrow> ('q, 'u) mem" where
  "loop_body E m = (case next_job m of ((j, err), m') \<Rightarrow> after_next E j err m')"

section \<open>Goroutines calling \<open>Start\<close> and \<open>Stop\<close>\<close>

text \<open>
  \<open>Start\<close> blocks in its loop until another goroutine calls \<open>Stop\<close>, so the
  lifecycle is a property of interleaved calls. Each call is a thread with a program
  counter; a step executes the code up to its next access to the producer's fields.
  The memory is sequentially consistent: a write is seen by every later read.

  The library primitives behave as documented in package \<open>sync\<close>:
  \<open>Once.Do(f)\<close> runs \<open>f\<close> when the \<open>Once\<close> is fresh, waits while another
  call is running \<open>f\<close>, and returns at once when \<open>f\<close> has returned;
  \<open>WaitGroup.Wait\<close> waits until the counter is zero; \<open>WaitGroup.Done\<close>
  panics when the counter would become negative.

  Program counters of \<open>Start\<close>/\<open>start\<close>:
  \<^item> \<open>StartCall\<close>: at \<open>p.startOnce.Do(p.start)\<close>;
  \<^item> \<open>SetRunning\<close>: before \<open>p.running = true\<close>;
  \<^item> \<open>WgAdd\<close>: before \<open>p.wg.Add(1)\<close>;
  \<^item> \<open>LoopHead\<close>: before \<open>if !p.running { break }\<close>;
  \<^item> \<open>CallNext\<close>: before \<open>j, err := p.next()\<close>;
  \<^item> \<open>GotNext j err\<close>: before \<open>if err != nil\<close>, with the values \<open>next\<close> returned;
  \<^item> \<open>DeferDone\<close>: after the loop, before the deferred \<open>p.wg.Done()\<close>;
  \<^item> \<open>StartOnceDone\<close>: \<open>start\<close> has returned, the \<open>Once\<close> is about to be marked;
  \<^item> \<open>StartReturned\<close>: \<open>Start\<close> has returned.

  Program counters of \<open>Stop\<close>/\<open>stop\<close>:
  \<^item> \<open>StopCall\<close>: at \<open>p.stopOnce.Do(p.stop)\<close>;
  \<^item> \<open>ClearRunning\<close>: before \<open>p.running = false\<close>;
  \<^item> \<open>WgWait\<close>: at \<open>p.wg.Wait()\<close>;
  \<^item> \<open>StopOnceDone\<close>: \<open>stop\<close> has returned, the \<open>Once\<close> is about to be marked;
  \<^item> \<open>StopReturned\<close>: \<open>Stop\<close> has returned.
\<close>

datatype call = Start | Stop

datatype pc =
    StartCall | SetRunning | WgAdd | LoopHead | CallNext | GotNext Job "error option"
  | DeferDone | StartOnceDone | StartReturned
  | StopCall | ClearRunning | WgWait | StopOnceDone | StopReturned
  | Panicked

text \<open>
  One step of a thread: \<open>None\<close> when the thread cannot move (it waits in \<open>Once.Do\<close>
  or in \<open>Wait\<close>, or its call has returned).
\<close>

fun thr_step :: "'q env \<Rightarrow> pc \<Rightarrow> ('q, 'u) mem \<Rightarrow> (pc \<times> ('q, 'u) mem) option" where
  "thr_step E StartCall m =
     (case startOnce (producer m) of
        Fresh \<Rightarrow> Some (SetRunning, m\<lparr>producer := (producer m)\<lparr>startOnce := InProgress\<rparr>\<rparr>)
      | InProgress \<Rightarrow> None
      | Finished \<Rightarrow> Some (StartReturned, m))"
| "thr_step E SetRunning m =
     Some (WgAdd, m\<lparr>producer := (producer m)\<lparr>running := True\<rparr>\<rparr>)"
| "thr_step E WgAdd m =
     Some (LoopHead, m\<lparr>producer := (producer m)\<lparr>wg := wg (producer m) + 1\<rparr>\<rparr>)"
| "thr_step E LoopHead m =
     (if \<not> running (producer m) then Some (DeferDone, m) else Some (CallNext, m))"
| "thr_step E CallNext m =
     (case next_job m of ((j, err), m') \<Rightarrow> Some (GotNext j err, m'))"
| "thr_step E (GotNext j err) m = Some (LoopHead, after_next E j err m)"
| "thr_step E DeferDone m =
     (if wg (producer m) - 1 < 0 then Some (Panicked, m)
      else Some (StartOnceDone, m\<lparr>producer := (producer m)\<lparr>wg := wg (producer m) - 1\<rparr>\<rparr>))"
| "thr_step E StartOnceDone m =
     Some (StartReturned, m\<lparr>producer := (producer m)\<lparr>startOnce := Finished\<rparr>\<rparr>)"
| "thr_step E StartReturned m = None"
| "thr_step E StopCall m =
     (case stopOnce (producer m) of
        Fresh \<Rightarrow> Some (ClearRunning, m\<lparr>producer := (producer m)\<lparr>stopOnce := InProgress\<rparr>\<rparr>)
      | InProgress \<Rightarrow> None
      | Finished \<Rightarrow> Some (StopReturned, m))"
| "thr_step E ClearRunning m =
     Some (WgWait, m\<lparr>producer := (producer m)\<lparr>running := False\<rparr>\<rparr>)"
| "thr_step E WgWait m =
     (if wg (producer m) = 0 then Some (StopOnceDone, m) else None)"
| "thr_step E StopOnceDone m =
     Some (StopReturned, m\<lparr>producer := (producer m)\<lparr>stopOnce := Finished\<rparr>\<rparr>)"
| "thr_step E StopReturned m = None"
| "thr_step E Panicked m = None"

text \<open>
  A configuration is the list of threads and the memory. The scheduler picks a thread;
  a thread that cannot move leaves the configuration as it is. \<open>run\<close> follows a
  schedule, so a property of \<open>run\<close> for every schedule holds on every interleaving.
\<close>

type_synonym ('q, 'u) config = "pc list \<times> ('q, 'u) mem"

definition sched_step :: "'q env \<Rightarrow> ('q, 'u) config \<Rightarrow> nat \<Rightarrow> ('q, 'u) config" where
  "sched_step E c i =
     (case c of (ts, m) \<Rightarrow>
        if i < length ts then
          (case thr_step E (ts ! i) m of
             None \<Rightarrow> (ts, m)
           | Some (pc', m') \<Rightarrow> (ts[i := pc'], m'))
        else (ts, m))"

definition run :: "'q env \<Rightarrow> ('q, 'u) config \<Rightarrow> nat list \<Rightarrow> ('q, 'u) config" where
  "run E c sched = foldl (sched_step E) c sched"

fun entry :: "call \<Rightarrow> pc" where
  "entry Start = StartCall"
| "entry Stop = StopCall"

text \<open>
  The memory right after \<open>NewProducer(q)\<close>, with the notifier the caller then assigns to
  \<open>p.Notifiers.Done\<close> (or \<open>nil\<close>), and the calls about to be made.
\<close>

definition new_mem ::
  "'q \<Rightarrow> (Job \<Rightarrow> error option \<Rightarrow> 'u \<Rightarrow> 'u) option \<Rightarrow> u64 \<Rightarrow> 'u \<Rightarrow> ('q, 'u) mem" where
  "new_mem q d n0 u0 =
     \<lparr>producer = (NewProducer q)\<lparr>Notifiers_Done := d\<rparr>, n_global = n0, observer = u0\<rparr>"

definition init :: "('q, 'u) mem \<Rightarrow> call list \<Rightarrow> ('q, 'u) config" where
  "init m calls = (map entry calls, m)"

text \<open>Where a thread is, as predicates on its program counter.\<close>

fun in_start_body :: "pc \<Rightarrow> bool" where
  "in_start_body SetRunning = True"
| "in_start_body WgAdd = True"
| "in_start_body LoopHead = True"
| "in_start_body CallNext = True"
| "in_start_body (GotNext j err) = True"
| "in_start_body DeferDone = True"
| "in_start_body StartOnceDone = True"
| "in_start_body _ = False"

fun in_loop :: "pc \<Rightarrow> bool" where
  "in_loop LoopHead = True"
| "in_loop CallNext = True"
| "in_loop (GotNext j err) = True"
| "in_loop _ = False"

fun wg_held :: "pc \<Rightarrow> bool" where
  "wg_held DeferDone = True"
| "wg_held pc = in_loop pc"

fun in_stop_body :: "pc \<Rightarrow> bool" where
  "in_stop_body ClearRunning = True"
| "in_stop_body WgWait = True"
| "in_stop_body StopOnceDone = True"
| "in_stop_body _ = False"

definition cnt :: "('a \<Rightarrow> bool) \<Rightarrow> 'a list \<Rightarrow> nat" where
  "cnt P xs = length (filter P xs)"

text \<open>
  Two memories that agree on everything the producer's code reads or writes except the
  notifier and what the notifier acts on.
\<close>

definition same_but_notifier :: "('q, 'u) mem \<Rightarrow> ('q, 'v) mem \<Rightarrow> bool" where
  "same_but_notifier m1 m2 =
     (queue (producer m1) = queue (producer m2)
      \<and> running (producer m1) = running (producer m2)
      \<and> startOnce (producer m1) = startOnce (producer m2)
      \<and> stopOnce (producer m1) = stopOnce (producer m2)
      \<and> wg (producer m1) = wg (producer m2)
      \<and> n_global m1 = n_global m2)"

section \<open>Measures and invariants of the interleavings\<close>

text \<open>Further positions: past the loop but still inside \<open>start\<close>, and past \<open>p.running = true\<close>.\<close>

fun left_loop :: "pc \<Rightarrow> bool" where
  "left_loop DeferDone = True"
| "left_loop StartOnceDone = True"
| "left_loop _ = False"

fun past_set :: "pc \<Rightarrow> bool" where
  "past_set WgAdd = True"
| "past_set pc = in_loop pc"

text \<open>A thread that holds an error returned by \<open>p.next()\<close>.\<close>

fun source_failed :: "pc \<Rightarrow> bool" where
  "source_failed (GotNext j (Some e)) = True"
| "source_failed _ = False"

text \<open>
  A step enters the body of \<open>start\<close> when it takes a thread from \<open>StartCall\<close> to
  \<open>SetRunning\<close>; \<open>start_entries\<close> counts these steps along a schedule, that is, how
  many loops were ever started.
\<close>

definition enters_start :: "'q env \<Rightarrow> ('q, 'u) config \<Rightarrow> nat \<Rightarrow> bool" where
  "enters_start E c i =
     (i < length (fst c) \<and> fst c ! i = StartCall \<and> fst (sched_step E c i) ! i = SetRunning)"

fun start_entries :: "'q env \<Rightarrow> ('q, 'u) config \<Rightarrow> nat list \<Rightarrow> nat" where
  "start_entries E c [] = 0"
| "start_entries E c (i # sched) =
     (if enters_start E c i then 1 else 0) + start_entries E (sched_step E c i) sched"

text \<open>
  \<open>stops_running\<close> counts the steps of a schedule at which \<open>IsRunning\<close> changes from
  true to false.
\<close>

fun stops_running :: "'q env \<Rightarrow> ('q, 'u) config \<Rightarrow> nat list \<Rightarrow> nat" where
  "stops_running E c [] = 0"
| "stops_running E c (i # sched) =
     (if IsRunning (producer (snd c)) \<and> \<not> IsRunning (producer (snd (sched_step E c i)))
      then 1 else 0)
     + stops_running E (sched_step E c i) sched"

text \<open>
  Invariants of every configuration reached from a new producer. \<open>inv_start\<close>: the
  \<open>Once\<close> of \<open>Start\<close> is in progress exactly while one thread is inside \<open>start\<close>,
  the wait group counts the thread between \<open>Add\<close> and \<open>Done\<close>, nothing panicked, and
  \<open>Start\<close> has returned only when the \<open>Once\<close> is done. \<open>inv_stop\<close>: the same for
  \<open>Stop\<close>. \<open>inv_unstopped\<close>: while no call of \<open>Stop\<close> has begun its body, no
  thread has left the loop and a thread past \<open>p.running = true\<close> sees the flag set.
\<close>

definition inv_start :: "('q, 'u) config \<Rightarrow> bool" where
  "inv_start c =
     (case c of (ts, m) \<Rightarrow>
        cnt in_start_body ts = (if startOnce (producer m) = InProgress then 1 else 0)
      \<and> wg (producer m) = int (cnt wg_held ts)
      \<and> cnt (\<lambda>pc. pc = Panicked) ts = 0
      \<and> (startOnce (producer m) \<noteq> Finished \<longrightarrow> cnt (\<lambda>pc. pc = StartReturned) ts = 0))"

definition inv_stop :: "('q, 'u) config \<Rightarrow> bool" where
  "inv_stop c =
     (case c of (ts, m) \<Rightarrow>
        cnt in_stop_body ts = (if stopOnce (producer m) = InProgress then 1 else 0)
      \<and> (stopOnce (producer m) \<noteq> Finished \<longrightarrow> cnt (\<lambda>pc. pc = StopReturned) ts = 0))"

definition inv_unstopped :: "('q, 'u) config \<Rightarrow> bool" where
  "inv_unstopped c =
     (case c of (ts, m) \<Rightarrow>
        stopOnce (producer m) = Fresh \<longrightarrow>
          cnt left_loop ts = 0 \<and> startOnce (producer m) \<noteq> Finished
          \<and> cnt in_stop_body ts = 0
          \<and> (0 < cnt past_set ts \<longrightarrow> running (producer m)))"

definition inv0 :: "('q, 'u) config \<Rightarrow> bool" where
  "inv0 c = (inv_start c \<and> inv_stop c \<and> inv_unstopped c)"

text \<open>
  The invariant from the moment the loop is running: \<open>start\<close> is past its first two
  statements and will not be entered again, the flag is off once \<open>p.running = false\<close> was
  executed, and the wait group is at zero once \<open>Wait\<close> has returned.
\<close>

definition inv_stopping :: "('q, 'u) config \<Rightarrow> bool" where
  "inv_stopping c =
     (case c of (ts, m) \<Rightarrow>
        startOnce (producer m) \<noteq> Fresh
      \<and> cnt (\<lambda>pc. pc = SetRunning \<or> pc = WgAdd) ts = 0
      \<and> (stopOnce (producer m) \<noteq> Fresh \<and> cnt (\<lambda>pc. pc = ClearRunning) ts = 0 \<longrightarrow>
            \<not> running (producer m))
      \<and> (0 < cnt (\<lambda>pc. pc = StopOnceDone) ts \<or> stopOnce (producer m) = Finished \<longrightarrow>
            wg (producer m) = 0))"

definition stopping :: "('q, 'u) config \<Rightarrow> bool" where
  "stopping c = (inv0 c \<and> inv_stopping c)"

text \<open>
  The invariant of a producer whose \<open>Stop\<close> has finished while its loop runs: nothing can
  clear the flag any more.
\<close>

definition inv_unstoppable :: "('q, 'u) config \<Rightarrow> bool" where
  "inv_unstoppable c =
     (case c of (ts, m) \<Rightarrow>
        stopOnce (producer m) = Finished
      \<and> startOnce (producer m) = InProgress
      \<and> running (producer m)
      \<and> cnt in_loop ts = 1
      \<and> cnt (\<lambda>pc. in_start_body pc \<and> \<not> in_loop pc) ts = 0
      \<and> cnt in_stop_body ts = 0
      \<and> cnt (\<lambda>pc. pc = StartReturned) ts = 0)"

section \<open>The consumer command's storage backend (cli/borges/consumer.go)\<close>

text \<open>
  The options of \<open>consumerSubcmd\<close>. A \<open>billy.Filesystem\<close> made by \<open>osfs.New(dir)\<close>
  is the local file system rooted at \<open>dir\<close>. \<open>repository.Fs\<close> is the backend of the
  copier: \<open>NewHDFSFs(url, base, tmpBase)\<close> or \<open>NewLocalFs(fs)\<close>. The transactioner
  made by \<open>NewSivaRootedTransactioner(NewCopier(tmp, remote, bucketSize))\<close> holds one
  copier, and the copier one backend.
\<close>

record consumerSubcmd =
  Locking :: string
  Workers :: int
  Timeout :: string
  RootRepositoriesDir :: string
  RootRepositoriesTempDir :: string
  BucketSize :: int
  TempDir :: string
  CleanTempDir :: bool

datatype filesystem = OSFS string

record URL =
  Scheme :: string
  Host :: string
  Path :: string

datatype Fs = HDFSFs string string string | LocalFs filesystem

record Copier =
  local_fs :: filesystem
  remote_fs :: Fs
  bucket :: int

datatype RootedTransactioner = SivaRootedTransactioner Copier

text \<open>
  Library functions the method calls, taken as parameters: \<open>tmp.Chroot(path)\<close> of
  go-billy, \<open>url.Parse\<close> and \<open>URL.String\<close> of net/url.
\<close>

record lib =
  Chroot :: "filesystem \<Rightarrow> string \<Rightarrow> error + filesystem"
  url_Parse :: "string \<Rightarrow> error + URL"
  url_String :: "URL \<Rightarrow> string"

text \<open>\<open>strings.HasPrefix\<close>: \<open>len(s) >= len(prefix) && s[0:len(prefix)] == prefix\<close>.\<close>

definition HasPrefix :: "string \<Rightarrow> string \<Rightarrow> bool" where
  "HasPrefix s prefix = (length s \<ge> length prefix \<and> take (length prefix) s = prefix)"

definition newRootedTransactioner ::
  "lib \<Rightarrow> consumerSubcmd \<Rightarrow> filesystem \<Rightarrow> error + RootedTransactioner" where
  "newRootedTransactioner L c tmp =
     (case Chroot L tmp ''transactioner'' of
        Inl err \<Rightarrow> Inl err
      | Inr tmp' \<Rightarrow>
          if HasPrefix (RootRepositoriesDir c) ''hdfs://'' then
            (case url_Parse L (RootRepositoriesDir c) of
               Inl err \<Rightarrow> Inl err
             | Inr u \<Rightarrow>
                 Inr (SivaRootedTransactioner
                   \<lparr>local_fs = tmp',
                    remote_fs = HDFSFs (url_String L (u\<lparr>Path := ''''\<rparr>)) (Path u)
                                  (RootRepositoriesTempDir c),
                    bucket = BucketSize c\<rparr>))
          else
            Inr (SivaRootedTransactioner
              \<lparr>local_fs = tmp',
               remote_fs = LocalFs (OSFS (RootRepositoriesDir c)),
               bucket = BucketSize c\<rparr>))"

fun backend :: "RootedTransactioner \<Rightarrow> Fs" where
  "backend (SivaRootedTransactioner cp) = remote_fs cp"

fun is_hdfs :: "Fs \<Rightarrow> bool" where
  "is_hdfs (HDFSFs u p t) = True"
| "is_hdfs (LocalFs f) = False"

section \<open>One iteration of the loop\<close>

lemma loop_body_steps:
  "\<exists>j err m'. thr_step E CallNext m = Some (GotNext j err, m')
     \<and> thr_step E (GotNext j err) m' = Some (LoopHead, loop_body E m)"
  by (simp add: loop_body_def next_job_def Let_def)



section \<open>The notifier is optional\<close>

lemma after_next_same:
  "same_but_notifier m1 m2 \<Longrightarrow> same_but_notifier (after_next E j err m1) (after_next E j err m2)"
  by (auto simp: same_but_notifier_def after_next_def notifyDone_def
      split: sum.splits prod.splits option.splits)

lemma thr_step_same:
  assumes "same_but_notifier m1 m2"
  shows "(thr_step E pc m1 = None \<and> thr_step E pc m2 = None)
         \<or> (\<exists>pc' m1' m2'. thr_step E pc m1 = Some (pc', m1') \<and> thr_step E pc m2 = Some (pc', m2')
              \<and> same_but_notifier m1' m2')"
proof (cases pc)
  case (GotNext j err)
  then show ?thesis using after_next_same [OF assms] by simp
qed (use assms in \<open>auto simp: same_but_notifier_def next_job_def Let_def split: once.splits\<close>)

lemma sched_step_same:
  assumes "same_but_notifier m1 m2"
  shows "fst (sched_step E (ts, m1) i) = fst (sched_step E (ts, m2) i)
         \<and> same_but_notifier (snd (sched_step E (ts, m1) i)) (snd (sched_step E (ts, m2) i))"
  using thr_step_same [OF assms, of E "ts ! i"] assms
  by (auto simp: sched_step_def)

lemma run_same:
  "same_but_notifier m1 m2 \<Longrightarrow>
   fst (run E (ts, m1) sched) = fst (run E (ts, m2) sched)
   \<and> same_but_notifier (snd (run E (ts, m1) sched)) (snd (run E (ts, m2) sched))"
proof (induction sched arbitrary: ts m1 m2)
  case Nil
  then show ?case by (simp add: run_def)
next
  case (Cons i sched)
  obtain ts1 m1' where s1: "sched_step E (ts, m1) i = (ts1, m1')"
    by (cases "sched_step E (ts, m1) i")
  obtain ts2 m2' where s2: "sched_step E (ts, m2) i = (ts2, m2')"
    by (cases "sched_step E (ts, m2) i")
  from sched_step_same [OF Cons.prems, of E ts i] s1 s2
  have "ts1 = ts2" "same_but_notifier m1' m2'" by simp_all
  with Cons.IH [of m1' m2' ts1] s1 s2 show ?case by (simp add: run_def)
qed

text \<open>
  C9. \<open>notifyDone\<close> with a \<open>nil\<close> notifier leaves the memory as it is (the model has
  no panic there, as the code returns before the call); with a notifier \<open>f\<close> the observer
  becomes \<open>f\<close> applied to exactly the job and the error. The loop calls it in the step
  of the publishing thread itself: for a job pulled without error, with a notifier \<open>f\<close> the
  observer after the iteration is \<open>f\<close> applied once, to that job and to the error of
  \<open>Encode\<close>, else of \<open>Publish\<close>, else \<open>nil\<close>; with a \<open>nil\<close> notifier the
  observer is left as it was, the queue is what \<open>Publish\<close> made of it, and the thread is
  back at the loop head all the same. Whatever the notifier is, the rest behaves the
  same: from memories that differ in the notifier and the observer only, one iteration,
  and every run of every schedule, lead to the same program counters and to memories that
  again differ in the notifier and the observer only.
\<close>

theorem notifier_optional:
  "(Notifiers_Done (producer m) = None \<longrightarrow> notifyDone j err m = m)
   \<and> (Notifiers_Done (producer m) = Some f \<longrightarrow>
        notifyDone j err m = m\<lparr>observer := f j err (observer m)\<rparr>)
   \<and> (Notifiers_Done (producer m) = Some f \<longrightarrow>
        observer (after_next E j None m) =
          f j (case Encode E j of Inl e \<Rightarrow> Some e
               | Inr job \<Rightarrow> fst (Publish E (queue (producer m)) job)) (observer m))
   \<and> (Notifiers_Done (producer m) = None \<longrightarrow>
        observer (after_next E j None m) = observer m)
   \<and> queue (producer (after_next E j None m)) =
        (case Encode E j of Inl e \<Rightarrow> queue (producer m)
         | Inr job \<Rightarrow> snd (Publish E (queue (producer m)) job))
   \<and> thr_step E (GotNext j None) m = Some (LoopHead, after_next E j None m)
   \<and> (same_but_notifier m1 m2 \<longrightarrow>
        same_but_notifier (after_next E j err m1) (after_next E j err m2)
        \<and> fst (run E (ts, m1) sched) = fst (run E (ts, m2) sched)
        \<and> same_but_notifier (snd (run E (ts, m1) sched)) (snd (run E (ts, m2) sched)))"
proof -
  have loop: "(Notifiers_Done (producer m) = Some f \<longrightarrow>
        observer (after_next E j None m) =
          f j (case Encode E j of Inl e \<Rightarrow> Some e
               | Inr job \<Rightarrow> fst (Publish E (queue (producer m)) job)) (observer m))
   \<and> (Notifiers_Done (producer m) = None \<longrightarrow>
        observer (after_next E j None m) = observer m)
   \<and> queue (producer (after_next E j None m)) =
        (case Encode E j of Inl e \<Rightarrow> queue (producer m)
         | Inr job \<Rightarrow> snd (Publish E (queue (producer m)) job))"
    by (auto simp: after_next_def notifyDone_def split: sum.splits prod.splits option.splits)
  show ?thesis
    using loop after_next_same [of m1 m2 E j err] run_same [of m1 m2 E ts sched]
    by (simp add: notifyDone_def)
qed

theorem notifier_optional_witness:
  "same_but_notifier (new_mem ([] :: qjob list) None 0 ([] :: (Job \<times> error option) list)) (new_mem ([] :: qjob list) (Some (\<lambda>j e u. u @ [(j, e)])) 0 [])
   \<and> notifyDone \<lparr>RepositoryID = 1\<rparr> None (new_mem ([] :: qjob list) None 0 ([] :: (Job \<times> error option) list)) = (new_mem ([] :: qjob list) None 0 ([] :: (Job \<times> error option) list))
   \<and> observer (notifyDone \<lparr>RepositoryID = 1\<rparr> None (new_mem ([] :: qjob list) (Some (\<lambda>j e u. u @ [(j, e)])) 0 [])) = [(\<lparr>RepositoryID = 1\<rparr>, None)]
   \<and> observer (after_next \<lparr>Encode = (\<lambda>j. Inr [7]), Publish = (\<lambda>q job. (None, q @ [job]))\<rparr> \<lparr>RepositoryID = 1\<rparr> None (new_mem ([] :: qjob list) None 0 ([] :: (Job \<times> error option) list))) = []
   \<and> observer (after_next \<lparr>Encode = (\<lambda>j. Inr [7]), Publish = (\<lambda>q job. (None, q @ [job]))\<rparr> \<lparr>RepositoryID = 1\<rparr> None (new_mem ([] :: qjob list) (Some (\<lambda>j e u. u @ [(j, e)])) 0 [])) = [(\<lparr>RepositoryID = 1\<rparr>, None)]
   \<and> observer (after_next
        \<lparr>Encode = (\<lambda>j. Inl (Error ''encode'')), Publish = (\<lambda>q job. (None, q @ [job]))\<rparr>
        \<lparr>RepositoryID = 1\<rparr> None (new_mem ([] :: qjob list) (Some (\<lambda>j e u. u @ [(j, e)])) 0 [])) = [(\<lparr>RepositoryID = 1\<rparr>, Some (Error ''encode''))]
   \<and> fst (run \<lparr>Encode = (\<lambda>j. Inr [7]), Publish = (\<lambda>q job. (None, q @ [job]))\<rparr> ([StartCall], (new_mem ([] :: qjob list) None 0 ([] :: (Job \<times> error option) list))) [0, 0, 0, 0, 0, 0]) =
       fst (run \<lparr>Encode = (\<lambda>j. Inr [7]), Publish = (\<lambda>q job. (None, q @ [job]))\<rparr> ([StartCall], (new_mem ([] :: qjob list) (Some (\<lambda>j e u. u @ [(j, e)])) 0 [])) [0, 0, 0, 0, 0, 0])
   \<and> queue (producer (snd (run \<lparr>Encode = (\<lambda>j. Inr [7]), Publish = (\<lambda>q job. (None, q @ [job]))\<rparr> ([StartCall], (new_mem ([] :: qjob list) None 0 ([] :: (Job \<times> error option) list))) [0, 0, 0, 0, 0, 0]))) = [[7]]
   \<and> queue (producer (snd (run \<lparr>Encode = (\<lambda>j. Inr [7]), Publish = (\<lambda>q job. (None, q @ [job]))\<rparr> ([StartCall], (new_mem ([] :: qjob list) (Some (\<lambda>j e u. u @ [(j, e)])) 0 [])) [0, 0, 0, 0, 0, 0]))) = [[7]]
   \<and> observer (snd (run \<lparr>Encode = (\<lambda>j. Inr [7]), Publish = (\<lambda>q job. (None, q @ [job]))\<rparr> ([StartCall], (new_mem ([] :: qjob list) None 0 ([] :: (Job \<times> error option) list))) [0, 0, 0, 0, 0, 0])) = []
   \<and> observer (snd (run \<lparr>Encode = (\<lambda>j. Inr [7]), Publish = (\<lambda>q job. (None, q @ [job]))\<rparr> ([StartCall], (new_mem ([] :: qjob list) (Some (\<lambda>j e u. u @ [(j, e)])) 0 [])) [0, 0, 0, 0, 0, 0])) =
       [(\<lparr>RepositoryID = 1\<rparr>, None)]"
  using
    notifier_optional [where m = "(new_mem ([] :: qjob list) None 0 ([] :: (Job \<times> error option) list))"
      and j = "\<lparr>RepositoryID = 1\<rparr>" and err = None
      and ?m1.0 = "(new_mem ([] :: qjob list) None 0 ([] :: (Job \<times> error option) list))" and ?m2.0 = "(new_mem ([] :: qjob list) (Some (\<lambda>j e u. u @ [(j, e)])) 0 [])"
      and E = "\<lparr>Encode = (\<lambda>j. Inr [7]), Publish = (\<lambda>q job. (None, q @ [job]))\<rparr>" and ts = "[StartCall]" and sched = "[0, 0, 0, 0, 0, 0]"]
    notifier_optional [where m = "(new_mem ([] :: qjob list) (Some (\<lambda>j e u. u @ [(j, e)])) 0 [])"
      and j = "\<lparr>RepositoryID = 1\<rparr>" and err = None and f = "\<lambda>j e u. u @ [(j, e)]"
      and ?m1.0 = "(new_mem ([] :: qjob list) None 0 ([] :: (Job \<times> error option) list))" and ?m2.0 = "(new_mem ([] :: qjob list) (Some (\<lambda>j e u. u @ [(j, e)])) 0 [])"
      and E = "\<lparr>Encode = (\<lambda>j. Inr [7]), Publish = (\<lambda>q job. (None, q @ [job]))\<rparr>" and ts = "[StartCall]" and sched = "[0, 0, 0, 0, 0, 0]"]
    notifier_optional [where m = "(new_mem ([] :: qjob list) (Some (\<lambda>j e u. u @ [(j, e)])) 0 [])"
      and j = "\<lparr>RepositoryID = 1\<rparr>" and err = None and f = "\<lambda>j e u. u @ [(j, e)]"
      and ?m1.0 = "(new_mem ([] :: qjob list) None 0 ([] :: (Job \<times> error option) list))" and ?m2.0 = "(new_mem ([] :: qjob list) (Some (\<lambda>j e u. u @ [(j, e)])) 0 [])"
      and E = "\<lparr>Encode = (\<lambda>j. Inl (Error ''encode'')), Publish = (\<lambda>q job. (None, q @ [job]))\<rparr>"
      and ts = "[StartCall]" and sched = "[0, 0, 0, 0, 0, 0]"]
  by (simp add: same_but_notifier_def new_mem_def NewProducer_def notifyDone_def run_def
      sched_step_def next_job_def after_next_def)

section \<open>Counting threads\<close>

lemma cnt_Nil [simp]: "cnt P [] = 0"
  by (simp add: cnt_def)

lemma cnt_Cons [simp]: "cnt P (x # xs) = (if P x then Suc (cnt P xs) else cnt P xs)"
  by (simp add: cnt_def)

lemma cnt_nth_pos: "i < length xs \<Longrightarrow> P (xs ! i) \<Longrightarrow> 0 < cnt P xs"
  by (induction xs arbitrary: i) (auto simp: nth_Cons split: nat.splits)

lemma cnt_update_same:
  "i < length xs \<Longrightarrow> P (xs ! i) = P y \<Longrightarrow> cnt P (xs[i := y]) = cnt P xs"
  by (induction xs arbitrary: i) (auto simp: nth_Cons split: nat.splits)

lemma cnt_update_in:
  "i < length xs \<Longrightarrow> \<not> P (xs ! i) \<Longrightarrow> P y \<Longrightarrow> cnt P (xs[i := y]) = Suc (cnt P xs)"
  by (induction xs arbitrary: i) (auto simp: nth_Cons split: nat.splits)

lemma cnt_update_out:
  "i < length xs \<Longrightarrow> P (xs ! i) \<Longrightarrow> \<not> P y \<Longrightarrow> Suc (cnt P (xs[i := y])) = cnt P xs"
  by (induction xs arbitrary: i) (auto simp: nth_Cons cnt_update_same split: nat.splits)

lemma cnt_mono: "(\<And>x. P x \<Longrightarrow> Q x) \<Longrightarrow> cnt P xs \<le> cnt Q xs"
  by (induction xs) auto

lemma cnt_pos_iff: "0 < cnt P xs \<longleftrightarrow> (\<exists>x\<in>set xs. P x)"
  by (induction xs) auto

lemma cnt_zero_iff: "cnt P xs = 0 \<longleftrightarrow> (\<forall>x\<in>set xs. \<not> P x)"
  by (induction xs) auto

lemma cnt_disj:
  "(\<And>x. P x \<Longrightarrow> R x \<and> \<not> Q x) \<Longrightarrow> (\<And>x. Q x \<Longrightarrow> R x) \<Longrightarrow>
   cnt P xs + cnt Q xs \<le> cnt R xs"
  by (induction xs) (auto simp: le_SucI)

lemma cnt_entry: "\<not> P StartCall \<Longrightarrow> \<not> P StopCall \<Longrightarrow> cnt P (map entry calls) = 0"
proof (induction calls)
  case Nil
  show ?case by simp
next
  case (Cons c cs)
  then show ?case by (cases c) simp_all
qed

lemma in_loop_imp: "in_loop pc \<Longrightarrow> in_start_body pc \<and> wg_held pc \<and> past_set pc"
  by (cases pc) simp_all

lemma after_next_producer:
  "running (producer (after_next E j err m)) = running (producer m)
   \<and> startOnce (producer (after_next E j err m)) = startOnce (producer m)
   \<and> stopOnce (producer (after_next E j err m)) = stopOnce (producer m)
   \<and> wg (producer (after_next E j err m)) = wg (producer m)
   \<and> Notifiers_Done (producer (after_next E j err m)) = Notifiers_Done (producer m)
   \<and> n_global (after_next E j err m) = n_global m"
  by (auto simp: after_next_def notifyDone_def split: sum.splits prod.splits option.splits)

section \<open>Invariants of every interleaving\<close>

lemma inv_start_thr_step:
  assumes "inv_start (ts, m)" "i < length ts" "thr_step E (ts ! i) m = Some (pc', m')"
  shows "inv_start (ts[i := pc'], m')"
proof (cases "ts ! i")
  case StartCall
  with assms show ?thesis
    by (cases "startOnce (producer m)")
       (auto simp: inv_start_def cnt_update_same cnt_update_in)
next
  case WgAdd
  with assms show ?thesis
    by (auto simp: inv_start_def cnt_update_same cnt_update_in)
next
  case DeferDone
  with assms cnt_nth_pos [of i ts wg_held] cnt_update_out [of i ts wg_held StartOnceDone]
  show ?thesis
    by (auto simp: inv_start_def cnt_update_same split: if_splits)
next
  case StartOnceDone
  with assms cnt_update_out [of i ts in_start_body StartReturned]
  show ?thesis
    by (auto simp: inv_start_def cnt_update_in cnt_update_same split: if_splits)
next
  case (GotNext j err)
  with assms show ?thesis
    by (auto simp: inv_start_def cnt_update_same after_next_producer)
next
  case CallNext
  with assms show ?thesis
    by (auto simp: inv_start_def cnt_update_same next_job_def Let_def)
next
  case StopCall
  with assms show ?thesis
    by (cases "stopOnce (producer m)") (auto simp: inv_start_def cnt_update_same)
qed (use assms in \<open>auto simp: inv_start_def cnt_update_same split: if_splits\<close>)

lemma inv_stop_thr_step:
  assumes "inv_stop (ts, m)" "i < length ts" "thr_step E (ts ! i) m = Some (pc', m')"
  shows "inv_stop (ts[i := pc'], m')"
proof (cases "ts ! i")
  case StartCall
  with assms show ?thesis
    by (cases "startOnce (producer m)") (auto simp: inv_stop_def cnt_update_same)
next
  case StopOnceDone
  with assms cnt_update_out [of i ts in_stop_body StopReturned]
  show ?thesis
    by (auto simp: inv_stop_def cnt_update_in cnt_update_same split: if_splits)
next
  case (GotNext j err)
  with assms show ?thesis
    by (auto simp: inv_stop_def cnt_update_same after_next_producer)
next
  case CallNext
  with assms show ?thesis
    by (auto simp: inv_stop_def cnt_update_same next_job_def Let_def)
next
  case StopCall
  with assms show ?thesis
    by (cases "stopOnce (producer m)")
       (auto simp: inv_stop_def cnt_update_same cnt_update_in)
qed (use assms in \<open>auto simp: inv_stop_def cnt_update_same split: if_splits\<close>)

lemma inv_unstopped_thr_step:
  assumes "inv_unstopped (ts, m)" "i < length ts" "thr_step E (ts ! i) m = Some (pc', m')"
  shows "inv_unstopped (ts[i := pc'], m')"
proof (cases "ts ! i")
  case StartCall
  with assms show ?thesis
    by (cases "startOnce (producer m)")
       (auto simp: inv_unstopped_def cnt_update_same)
next
  case SetRunning
  with assms show ?thesis
    by (auto simp: inv_unstopped_def cnt_update_same)
next
  case WgAdd
  with assms cnt_nth_pos [of i ts past_set] show ?thesis
    by (auto simp: inv_unstopped_def cnt_update_same)
next
  case LoopHead
  with assms cnt_nth_pos [of i ts past_set] show ?thesis
    by (auto simp: inv_unstopped_def cnt_update_same split: if_splits)
next
  case DeferDone
  with assms cnt_nth_pos [of i ts left_loop] show ?thesis
    by (auto simp: inv_unstopped_def split: if_splits)
next
  case StartOnceDone
  with assms cnt_nth_pos [of i ts left_loop] show ?thesis
    by (auto simp: inv_unstopped_def)
next
  case (GotNext j err)
  with assms cnt_nth_pos [of i ts past_set] show ?thesis
    by (auto simp: inv_unstopped_def cnt_update_same after_next_producer)
next
  case CallNext
  with assms cnt_nth_pos [of i ts past_set] show ?thesis
    by (auto simp: inv_unstopped_def cnt_update_same next_job_def Let_def)
next
  case StopCall
  with assms show ?thesis
    by (cases "stopOnce (producer m)") (auto simp: inv_unstopped_def cnt_update_same)
next
  case ClearRunning
  with assms cnt_nth_pos [of i ts in_stop_body] show ?thesis
    by (auto simp: inv_unstopped_def)
next
  case WgWait
  with assms cnt_nth_pos [of i ts in_stop_body] show ?thesis
    by (auto simp: inv_unstopped_def split: if_splits)
next
  case StopOnceDone
  with assms cnt_nth_pos [of i ts in_stop_body] show ?thesis
    by (auto simp: inv_unstopped_def)
qed (use assms in \<open>auto simp: inv_unstopped_def cnt_update_same split: if_splits\<close>)

lemma sched_step_cases:
  assumes "\<And>ts m. c = (ts, m) \<Longrightarrow> Q (ts, m)"
    and "\<And>ts m pc' m'. c = (ts, m) \<Longrightarrow> i < length ts \<Longrightarrow>
           thr_step E (ts ! i) m = Some (pc', m') \<Longrightarrow> Q (ts[i := pc'], m')"
  shows "Q (sched_step E c i)"
proof (cases c)
  case (Pair ts m)
  show ?thesis
  proof (cases "i < length ts")
    case False
    with Pair assms(1) show ?thesis by (simp add: sched_step_def)
  next
    case True
    show ?thesis
    proof (cases "thr_step E (ts ! i) m")
      case None
      with Pair True assms(1) show ?thesis by (simp add: sched_step_def)
    next
      case (Some r)
      obtain pc' m' where "r = (pc', m')" by (cases r)
      with Some Pair True assms(2) [of ts m pc' m'] show ?thesis
        by (simp add: sched_step_def)
    qed
  qed
qed

lemma inv0_sched_step: "inv0 c \<Longrightarrow> inv0 (sched_step E c i)"
  by (rule sched_step_cases)
     (auto simp: inv0_def intro: inv_start_thr_step inv_stop_thr_step inv_unstopped_thr_step)

lemma run_Nil [simp]: "run E c [] = c"
  by (simp add: run_def)

lemma run_Cons [simp]: "run E c (i # sched) = run E (sched_step E c i) sched"
  by (simp add: run_def)

lemma run_append: "run E c (s1 @ s2) = run E (run E c s1) s2"
  by (simp add: run_def)

lemma inv0_run: "inv0 c \<Longrightarrow> inv0 (run E c sched)"
  by (induction sched arbitrary: c) (simp_all add: inv0_sched_step)

lemma inv0_init: "inv0 (init (new_mem q d n0 u0) calls)"
  by (simp add: inv0_def inv_start_def inv_stop_def inv_unstopped_def init_def new_mem_def
      NewProducer_def cnt_entry)

section \<open>The job source \<open>next\<close>\<close>

lemma next_job_eq:
  "next_job m = ((\<lparr>RepositoryID = n_global m + 1\<rparr>, None), m\<lparr>n_global := n_global m + 1\<rparr>)"
  by (simp add: next_job_def Let_def)

lemma no_source_failure_thr_step:
  assumes "cnt source_failed ts = 0" "i < length ts" "thr_step E (ts ! i) m = Some (pc', m')"
  shows "cnt source_failed (ts[i := pc']) = 0"
proof -
  from assms(1,2) cnt_nth_pos [of i ts source_failed] have old: "\<not> source_failed (ts ! i)"
    by auto
  have new: "\<not> source_failed pc'"
  proof (cases "ts ! i")
    case StartCall
    with assms(3) show ?thesis by (cases "startOnce (producer m)") auto
  next
    case StopCall
    with assms(3) show ?thesis by (cases "stopOnce (producer m)") auto
  qed (use assms(3) in \<open>auto simp: next_job_def Let_def split: if_splits\<close>)
  from old new assms(1,2) show ?thesis by (simp add: cnt_update_same)
qed

lemma no_source_failure_run:
  "cnt source_failed (fst c) = 0 \<Longrightarrow> cnt source_failed (fst (run E c sched)) = 0"
proof (induction sched arbitrary: c)
  case Nil
  then show ?case by simp
next
  case (Cons i sched)
  have "cnt source_failed (fst (sched_step E c i)) = 0"
    by (rule sched_step_cases) (use Cons.prems in \<open>auto intro: no_source_failure_thr_step\<close>)
  from Cons.IH [OF this] show ?case by simp
qed

lemma word_less_succ: "x \<noteq> - 1 \<Longrightarrow> x < x + 1" for x :: u64
  by (metis inc_less_eq_triv_imp linorder_less_linear word_le_less_eq)

text \<open>
  C10. \<open>next\<close> never returns an error, so the loop always reaches \<open>GotNext\<close> with a
  \<open>nil\<close> error, and in no configuration reached from a new producer does a thread hold a
  source error; the job carries the counter \<open>n\<close> after its increment; the next call
  yields the following identifier, computed modulo \<open>2 ^ 64\<close>, which is larger unless the
  counter wrapped.
\<close>

theorem next_never_fails_consecutive_ids:
  "snd (fst (next_job m)) = None
   \<and> RepositoryID (fst (fst (next_job m))) = n_global m + 1
   \<and> n_global (snd (next_job m)) = n_global m + 1
   \<and> RepositoryID (fst (fst (next_job (snd (next_job m))))) =
       RepositoryID (fst (fst (next_job m))) + 1
   \<and> unat (RepositoryID (fst (fst (next_job m)))) = (unat (n_global m) + 1) mod 2 ^ 64
   \<and> (RepositoryID (fst (fst (next_job m))) \<noteq> - 1 \<longrightarrow>
        RepositoryID (fst (fst (next_job m))) <
          RepositoryID (fst (fst (next_job (snd (next_job m))))))
   \<and> thr_step E CallNext m =
        Some (GotNext \<lparr>RepositoryID = n_global m + 1\<rparr> None, m\<lparr>n_global := n_global m + 1\<rparr>)
   \<and> (\<forall>pc\<in>set (fst (run E (init (new_mem q d n0 u0) calls) sched)). \<not> source_failed pc)"
proof -
  have wrap: "unat (n_global m + 1) = (unat (n_global m) + 1) mod 2 ^ 64"
    by (simp add: unat_word_ariths)
  have "cnt source_failed (fst (init (new_mem q d n0 u0) calls)) = 0"
    by (simp add: init_def cnt_entry)
  then have "cnt source_failed (fst (run E (init (new_mem q d n0 u0) calls) sched)) = 0"
    by (rule no_source_failure_run)
  then have reach: "\<forall>pc\<in>set (fst (run E (init (new_mem q d n0 u0) calls) sched)). \<not> source_failed pc"
    by (simp add: cnt_zero_iff)
  show ?thesis
    using wrap word_less_succ [of "n_global m + 1"] reach by (simp add: next_job_eq)
qed

theorem next_never_fails_consecutive_ids_witness:
  "RepositoryID (fst (fst (next_job (new_mem ([] :: qjob list) None 41 ())))) = 42
   \<and> (42 :: u64) \<noteq> - 1
   \<and> RepositoryID (fst (fst (next_job (snd (next_job (new_mem ([] :: qjob list) None 41 ())))))) = 43
   \<and> (42 :: u64) < 43
   \<and> fst (run \<lparr>Encode = (\<lambda>j. Inr [7]), Publish = (\<lambda>q job. (None, q @ [job]))\<rparr> (init (new_mem ([] :: qjob list) None 0 ()) [Start]) [0, 0, 0, 0, 0]) = [GotNext \<lparr>RepositoryID = 1\<rparr> None]
   \<and> \<not> source_failed (GotNext \<lparr>RepositoryID = 1\<rparr> None)"
  using next_never_fails_consecutive_ids [where m = "new_mem ([] :: qjob list) None 41 ()"
      and E = "\<lparr>Encode = (\<lambda>j. Inr [7]), Publish = (\<lambda>q job. (None, q @ [job]))\<rparr>" and q = "[] :: qjob list" and d = None and ?n0.0 = 0 and ?u0.0 = "()"
      and calls = "[Start]" and sched = "[0, 0, 0, 0, 0]"]
  by (simp add: new_mem_def sched_step_def init_def NewProducer_def next_job_def)

section \<open>\<open>Start\<close> is one-shot\<close>

lemma once_entry_step:
  "(if enters_start E c i then 1 else 0) + (if startOnce (producer (snd c)) = Fresh then 0 else 1)
   = (if startOnce (producer (snd (sched_step E c i))) = Fresh then 0 else (1::nat))"
  if "inv_start c"
proof (cases c)
  case (Pair ts m)
  show ?thesis
  proof (cases "i < length ts")
    case False
    with Pair show ?thesis by (simp add: enters_start_def sched_step_def)
  next
    case True
    show ?thesis
    proof (cases "ts ! i")
      case StartCall
      with Pair True show ?thesis
        by (cases "startOnce (producer m)") (simp_all add: enters_start_def sched_step_def)
    next
      case StopCall
      with Pair True show ?thesis
        by (cases "stopOnce (producer m)") (simp_all add: enters_start_def sched_step_def)
    next
      case (GotNext j err)
      with Pair True show ?thesis
        by (simp add: enters_start_def sched_step_def after_next_producer)
    next
      case StartOnceDone
      with Pair True that cnt_nth_pos [of i ts in_start_body] show ?thesis
        by (auto simp: enters_start_def sched_step_def inv_start_def split: if_splits)
    qed (use Pair True in \<open>simp_all add: enters_start_def sched_step_def next_job_def Let_def\<close>)
  qed
qed

lemma start_entries_run:
  "inv0 c \<Longrightarrow>
   start_entries E c sched + (if startOnce (producer (snd c)) = Fresh then 0 else 1)
   = (if startOnce (producer (snd (run E c sched))) = Fresh then 0 else 1)"
proof (induction sched arbitrary: c)
  case Nil
  show ?case by simp
next
  case (Cons i sched)
  from Cons.prems have "inv_start c" by (simp add: inv0_def)
  from Cons.IH [OF inv0_sched_step [OF Cons.prems, of E i]] once_entry_step [OF this, of E i]
  show ?case by simp
qed

text \<open>
  C6. In every configuration reached from a new producer, by any calls in any
  interleaving: at most one thread is inside \<open>start\<close>, at most one in the loop, and the
  number of loops ever started is one, or zero while the \<open>Once\<close> is still fresh. A call
  of \<open>Start\<close> made when an earlier one has returned returns at once and leaves the
  memory as it is; made while another is running it waits; and \<open>Start\<close> has returned only
  when the \<open>Once\<close> is done.
\<close>

theorem start_is_one_shot:
  "cnt in_start_body (fst (run E (init (new_mem q d n0 u0) calls) sched)) \<le> 1
   \<and> cnt in_loop (fst (run E (init (new_mem q d n0 u0) calls) sched)) \<le> 1
   \<and> start_entries E (init (new_mem q d n0 u0) calls) sched =
       (if startOnce (producer (snd (run E (init (new_mem q d n0 u0) calls) sched))) = Fresh
        then 0 else 1)
   \<and> (startOnce (producer m) = Finished \<longrightarrow> thr_step E StartCall m = Some (StartReturned, m))
   \<and> (startOnce (producer m) = InProgress \<longrightarrow> thr_step E StartCall m = None)
   \<and> (StartReturned \<in> set (fst (run E (init (new_mem q d n0 u0) calls) sched)) \<longrightarrow>
        startOnce (producer (snd (run E (init (new_mem q d n0 u0) calls) sched))) = Finished)"
proof -
  let ?c = "run E (init (new_mem q d n0 u0) calls) sched"
  have "inv0 ?c" by (rule inv0_run) (rule inv0_init)
  then have st: "inv_start ?c" by (simp add: inv0_def)
  have a: "cnt in_start_body (fst ?c) \<le> 1"
    using st by (simp add: inv_start_def split_beta)
  have "cnt in_loop (fst ?c) \<le> cnt in_start_body (fst ?c)"
    by (rule cnt_mono) (simp add: in_loop_imp)
  with a have b: "cnt in_loop (fst ?c) \<le> 1" by simp
  have c: "start_entries E (init (new_mem q d n0 u0) calls) sched =
       (if startOnce (producer (snd ?c)) = Fresh then 0 else 1)"
    using start_entries_run [OF inv0_init, of E q d n0 u0 calls sched]
    by (simp add: init_def new_mem_def NewProducer_def)
  have d: "StartReturned \<in> set (fst ?c) \<longrightarrow> startOnce (producer (snd ?c)) = Finished"
    using st cnt_zero_iff [of "\<lambda>pc. pc = StartReturned" "fst ?c"]
    by (auto simp: inv_start_def split_beta)
  from a b c d show ?thesis by simp
qed

theorem start_is_one_shot_witness:
  "fst (run \<lparr>Encode = (\<lambda>j. Inr [7]), Publish = (\<lambda>q job. (None, q @ [job]))\<rparr> (init (new_mem ([] :: qjob list) None 0 ()) [Start, Stop, Start]) [0, 0, 0, 2, 1, 1, 0, 0, 0, 1, 1, 2]) =
     [StartReturned, StopReturned, StartReturned]
   \<and> startOnce (producer (snd (run \<lparr>Encode = (\<lambda>j. Inr [7]), Publish = (\<lambda>q job. (None, q @ [job]))\<rparr> (init (new_mem ([] :: qjob list) None 0 ()) [Start, Stop, Start])
        [0, 0, 0, 2, 1, 1, 0, 0, 0, 1, 1, 2]))) = Finished
   \<and> start_entries \<lparr>Encode = (\<lambda>j. Inr [7]), Publish = (\<lambda>q job. (None, q @ [job]))\<rparr> (init (new_mem ([] :: qjob list) None 0 ()) [Start, Stop, Start]) [0, 0, 0, 2, 1, 1, 0, 0, 0, 1, 1, 2] = 1
   \<and> thr_step \<lparr>Encode = (\<lambda>j. Inr [7]), Publish = (\<lambda>q job. (None, q @ [job]))\<rparr> StartCall (snd (run \<lparr>Encode = (\<lambda>j. Inr [7]), Publish = (\<lambda>q job. (None, q @ [job]))\<rparr> (init (new_mem ([] :: qjob list) None 0 ()) [Start, Stop, Start])
        [0, 0, 0, 2, 1, 1, 0, 0, 0, 1, 1, 2])) =
       Some (StartReturned, snd (run \<lparr>Encode = (\<lambda>j. Inr [7]), Publish = (\<lambda>q job. (None, q @ [job]))\<rparr> (init (new_mem ([] :: qjob list) None 0 ()) [Start, Stop, Start])
        [0, 0, 0, 2, 1, 1, 0, 0, 0, 1, 1, 2]))"
  using start_is_one_shot [where E = "\<lparr>Encode = (\<lambda>j. Inr [7]), Publish = (\<lambda>q job. (None, q @ [job]))\<rparr>"
      and q = "[] :: qjob list" and d = None and ?n0.0 = 0 and ?u0.0 = "()"
      and calls = "[Start, Stop, Start]" and sched = "[0, 0, 0, 2, 1, 1, 0, 0, 0, 1, 1, 2]"
      and m = "snd (run \<lparr>Encode = (\<lambda>j. Inr [7]), Publish = (\<lambda>q job. (None, q @ [job]))\<rparr> (init (new_mem ([] :: qjob list) None 0 ()) [Start, Stop, Start]) [0, 0, 0, 2, 1, 1, 0, 0, 0, 1, 1, 2])"]
  by (simp add: sched_step_def init_def new_mem_def NewProducer_def enters_start_def)

section \<open>\<open>Stop\<close> waits for the loop\<close>

lemma inv_stopping_thr_step:
  assumes "inv_start (ts, m)" "inv_stop (ts, m)" "inv_stopping (ts, m)"
    and "i < length ts" "thr_step E (ts ! i) m = Some (pc', m')"
  shows "inv_stopping (ts[i := pc'], m')"
proof (cases "ts ! i")
  case StartCall
  with assms show ?thesis
    by (cases "startOnce (producer m)") (auto simp: inv_stopping_def cnt_update_same)
next
  case SetRunning
  with assms cnt_nth_pos [of i ts "\<lambda>pc. pc = SetRunning \<or> pc = WgAdd"] show ?thesis
    by (auto simp: inv_stopping_def)
next
  case WgAdd
  with assms cnt_nth_pos [of i ts "\<lambda>pc. pc = SetRunning \<or> pc = WgAdd"] show ?thesis
    by (auto simp: inv_stopping_def)
next
  case LoopHead
  with assms show ?thesis
    by (auto simp: inv_stopping_def cnt_update_same split: if_splits)
next
  case CallNext
  with assms show ?thesis
    by (auto simp: inv_stopping_def cnt_update_same next_job_def Let_def)
next
  case (GotNext j err)
  with assms show ?thesis
    by (auto simp: inv_stopping_def cnt_update_same after_next_producer)
next
  case DeferDone
  with assms cnt_nth_pos [of i ts wg_held] show ?thesis
    by (auto simp: inv_stopping_def inv_start_def cnt_update_same split: if_splits)
next
  case StartOnceDone
  with assms show ?thesis
    by (auto simp: inv_stopping_def cnt_update_same)
next
  case StopCall
  have "cnt (\<lambda>pc. pc = StopOnceDone) ts \<le> cnt in_stop_body ts"
    by (rule cnt_mono) simp
  with StopCall assms show ?thesis
    by (cases "stopOnce (producer m)")
       (auto simp: inv_stopping_def inv_stop_def cnt_update_same cnt_update_in)
next
  case ClearRunning
  with assms show ?thesis
    by (auto simp: inv_stopping_def cnt_update_same)
next
  case WgWait
  with assms show ?thesis
    by (auto simp: inv_stopping_def cnt_update_same cnt_update_in split: if_splits)
next
  case StopOnceDone
  with assms cnt_nth_pos [of i ts "\<lambda>pc. pc = StopOnceDone"] cnt_nth_pos [of i ts in_stop_body]
  show ?thesis
    by (auto simp: inv_stopping_def cnt_update_same inv_stop_def split: if_splits)
qed (use assms in \<open>auto simp: inv_stopping_def\<close>)

lemma running_stays_off_thr_step:
  assumes "inv_stopping (ts, m)" "i < length ts" "thr_step E (ts ! i) m = Some (pc', m')"
    and "\<not> running (producer m)"
  shows "\<not> running (producer m')"
proof (cases "ts ! i")
  case SetRunning
  with assms cnt_nth_pos [of i ts "\<lambda>pc. pc = SetRunning \<or> pc = WgAdd"] show ?thesis
    by (auto simp: inv_stopping_def)
next
  case StartCall
  with assms show ?thesis by (cases "startOnce (producer m)") auto
next
  case StopCall
  with assms show ?thesis by (cases "stopOnce (producer m)") auto
next
  case (GotNext j err)
  with assms show ?thesis by (auto simp: after_next_producer)
qed (use assms in \<open>auto simp: next_job_def Let_def split: if_splits\<close>)

lemma stopping_sched_step: "stopping c \<Longrightarrow> stopping (sched_step E c i)"
  by (rule sched_step_cases)
     (auto simp: stopping_def inv0_def
        intro: inv_start_thr_step inv_stop_thr_step inv_unstopped_thr_step inv_stopping_thr_step)

lemma stopping_run: "stopping c \<Longrightarrow> stopping (run E c sched)"
  by (induction sched arbitrary: c) (simp_all add: stopping_sched_step)

lemma running_stays_off_step:
  "stopping c \<Longrightarrow> \<not> running (producer (snd c)) \<Longrightarrow> \<not> running (producer (snd (sched_step E c i)))"
  by (rule sched_step_cases)
     (auto simp: stopping_def dest: running_stays_off_thr_step)

lemma running_stays_off_run:
  "stopping c \<Longrightarrow> \<not> running (producer (snd c)) \<Longrightarrow> \<not> running (producer (snd (run E c sched)))"
  by (induction sched arbitrary: c) (simp_all add: stopping_sched_step running_stays_off_step)

lemma stops_running_run:
  "stopping c \<Longrightarrow>
   stops_running E c sched + (if running (producer (snd c)) then 0 else 1)
   = (if running (producer (snd (run E c sched))) then 0 else 1)"
proof (induction sched arbitrary: c)
  case Nil
  show ?case by simp
next
  case (Cons i sched)
  from Cons.IH [OF stopping_sched_step [OF Cons.prems, of E i]]
    running_stays_off_step [OF Cons.prems, of E i]
  show ?case by (auto simp: IsRunning_def)
qed

lemma stopping_returned:
  assumes "stopping (ts, m)" "StopReturned \<in> set ts"
  shows "\<not> running (producer m) \<and> wg (producer m) = 0 \<and> cnt in_loop ts = 0"
proof -
  from assms(2) have "0 < cnt (\<lambda>pc. pc = StopReturned) ts"
    by (auto simp: cnt_pos_iff)
  with assms(1) have fin: "stopOnce (producer m) = Finished"
    by (auto simp: stopping_def inv0_def inv_stop_def)
  with assms(1) have "cnt in_stop_body ts = 0"
    by (simp add: stopping_def inv0_def inv_stop_def)
  moreover have "cnt (\<lambda>pc. pc = ClearRunning) ts \<le> cnt in_stop_body ts"
    by (rule cnt_mono) simp
  ultimately have "cnt (\<lambda>pc. pc = ClearRunning) ts = 0" by simp
  with assms(1) fin have r: "\<not> running (producer m)"
    by (simp add: stopping_def inv_stopping_def)
  from assms(1) fin have w: "wg (producer m) = 0"
    by (simp add: stopping_def inv_stopping_def)
  with assms(1) have "cnt wg_held ts = 0"
    by (simp add: stopping_def inv0_def inv_start_def)
  moreover have "cnt in_loop ts \<le> cnt wg_held ts"
    by (rule cnt_mono) (simp add: in_loop_imp)
  ultimately show ?thesis using r w by simp
qed

lemma stopping_start:
  assumes "inv0 (ts, m)" "stopOnce (producer m) = Fresh" "\<exists>pc\<in>set ts. in_loop pc"
  shows "stopping (ts, m) \<and> running (producer m)"
proof -
  from assms(3) have pos: "0 < cnt in_loop ts" by (simp add: cnt_pos_iff)
  have "cnt (\<lambda>pc. pc = SetRunning \<or> pc = WgAdd) ts + cnt in_loop ts \<le> cnt in_start_body ts"
    by (rule cnt_disj) (auto simp: in_loop_imp)
  moreover from assms(1) have "cnt in_start_body ts \<le> 1"
    by (simp add: inv0_def inv_start_def)
  ultimately have a: "cnt (\<lambda>pc. pc = SetRunning \<or> pc = WgAdd) ts = 0" using pos by simp
  have "cnt in_loop ts \<le> cnt in_start_body ts"
    by (rule cnt_mono) (simp add: in_loop_imp)
  with pos assms(1) have b: "startOnce (producer m) \<noteq> Fresh"
    by (auto simp: inv0_def inv_start_def split: if_splits)
  have "cnt (\<lambda>pc. pc = StopOnceDone) ts \<le> cnt in_stop_body ts"
    by (rule cnt_mono) simp
  with assms(1,2) have c: "cnt (\<lambda>pc. pc = StopOnceDone) ts = 0"
    by (simp add: inv0_def inv_unstopped_def)
  have "cnt in_loop ts \<le> cnt past_set ts"
    by (rule cnt_mono) (simp add: in_loop_imp)
  with pos assms(1,2) have d: "running (producer m)"
    by (simp add: inv0_def inv_unstopped_def)
  from a b c d assms(1,2) show ?thesis
    by (simp add: stopping_def inv_stopping_def)
qed

text \<open>
  When every \<open>Stop\<close> comes while the loop runs, \<open>Stop\<close> waits for the loop. Take any
  configuration \<open>c1\<close> reached from a new producer in which the loop of
  \<open>start\<close> is running and no call of \<open>Stop\<close> has begun its body (every \<open>Stop\<close> of the
  execution comes while the loop runs). Then the producer is running at \<open>c1\<close>, and along
  every continuation \<open>sched2\<close>: \<open>IsRunning\<close> changes from true to false at most once; and
  when some \<open>Stop\<close> has returned, \<open>IsRunning\<close> is false, no thread is in the loop, the
  wait group is at zero, the change to not running happened exactly once, the producer
  stays not running along every further schedule \<open>sched3\<close>, and one more \<open>Stop\<close>
  returns at once leaving the memory as it is. A \<open>Stop\<close> called while another is inside
  \<open>stop\<close> waits.
\<close>

theorem stop_waits_for_loop:
  assumes "c1 = run E (init (new_mem q d n0 u0) calls) sched1"
    and "stopOnce (producer (snd c1)) = Fresh"
    and "\<exists>pc\<in>set (fst c1). in_loop pc"
  shows "IsRunning (producer (snd c1))
    \<and> stops_running E c1 sched2 \<le> 1
    \<and> (StopReturned \<in> set (fst (run E c1 sched2)) \<longrightarrow>
         \<not> IsRunning (producer (snd (run E c1 sched2)))
         \<and> (\<forall>pc\<in>set (fst (run E c1 sched2)). \<not> in_loop pc)
         \<and> wg (producer (snd (run E c1 sched2))) = 0
         \<and> stops_running E c1 sched2 = 1
         \<and> \<not> IsRunning (producer (snd (run E c1 (sched2 @ sched3))))
         \<and> thr_step E StopCall (snd (run E c1 sched2)) =
             Some (StopReturned, snd (run E c1 sched2)))
    \<and> (stopOnce (producer (snd (run E c1 sched2))) = InProgress \<longrightarrow>
         thr_step E StopCall (snd (run E c1 sched2)) = None)"
proof -
  let ?c2 = "run E c1 sched2"
  have "inv0 c1" unfolding assms(1) by (rule inv0_run) (rule inv0_init)
  with stopping_start [of "fst c1" "snd c1"] assms(2,3)
  have s1: "stopping c1" and r1: "running (producer (snd c1))" by simp_all
  then have s2: "stopping ?c2" by (simp add: stopping_run)
  from stops_running_run [OF s1, of E sched2] r1
  have cnt: "stops_running E c1 sched2 = (if running (producer (snd ?c2)) then 0 else 1)"
    by simp
  have ret: "\<not> running (producer (snd ?c2)) \<and> wg (producer (snd ?c2)) = 0
      \<and> cnt in_loop (fst ?c2) = 0 \<and> stopOnce (producer (snd ?c2)) = Finished"
    if "StopReturned \<in> set (fst ?c2)"
  proof -
    from that have "0 < cnt (\<lambda>pc. pc = StopReturned) (fst ?c2)"
      by (auto simp: cnt_pos_iff)
    with s2 have "stopOnce (producer (snd ?c2)) = Finished"
      by (auto simp: stopping_def inv0_def inv_stop_def split_beta)
    with stopping_returned [of "fst ?c2" "snd ?c2"] s2 that show ?thesis by simp
  qed
  have later: "\<not> running (producer (snd (run E c1 (sched2 @ sched3))))"
    if "\<not> running (producer (snd ?c2))"
    using running_stays_off_run [OF s2 that, of E sched3] by (simp add: run_append)
  show ?thesis
    using r1 cnt ret later by (auto simp: IsRunning_def cnt_zero_iff)
qed

theorem stop_waits_for_loop_witness:
  "stopOnce (producer (snd (run \<lparr>Encode = (\<lambda>j. Inr [7]), Publish = (\<lambda>q job. (None, q @ [job]))\<rparr>
         (init (new_mem ([] :: qjob list) None 0 ()) [Start, Stop]) [0, 0, 0]))) = Fresh
   \<and> (\<exists>pc\<in>set (fst (run \<lparr>Encode = (\<lambda>j. Inr [7]), Publish = (\<lambda>q job. (None, q @ [job]))\<rparr>
         (init (new_mem ([] :: qjob list) None 0 ()) [Start, Stop]) [0, 0, 0])). in_loop pc)
   \<and> StopReturned \<in> set (fst (run \<lparr>Encode = (\<lambda>j. Inr [7]), Publish = (\<lambda>q job. (None, q @ [job]))\<rparr>
         (run \<lparr>Encode = (\<lambda>j. Inr [7]), Publish = (\<lambda>q job. (None, q @ [job]))\<rparr>
           (init (new_mem ([] :: qjob list) None 0 ()) [Start, Stop]) [0, 0, 0])
         [1, 1, 1, 0, 0, 1, 1]))
   \<and> \<not> IsRunning (producer (snd (run \<lparr>Encode = (\<lambda>j. Inr [7]), Publish = (\<lambda>q job. (None, q @ [job]))\<rparr>
         (run \<lparr>Encode = (\<lambda>j. Inr [7]), Publish = (\<lambda>q job. (None, q @ [job]))\<rparr>
           (init (new_mem ([] :: qjob list) None 0 ()) [Start, Stop]) [0, 0, 0])
         [1, 1, 1, 0, 0, 1, 1])))
   \<and> stops_running \<lparr>Encode = (\<lambda>j. Inr [7]), Publish = (\<lambda>q job. (None, q @ [job]))\<rparr>
         (run \<lparr>Encode = (\<lambda>j. Inr [7]), Publish = (\<lambda>q job. (None, q @ [job]))\<rparr>
           (init (new_mem ([] :: qjob list) None 0 ()) [Start, Stop]) [0, 0, 0])
         [1, 1, 1, 0, 0, 1, 1] = 1"
  using stop_waits_for_loop [where
      E = "\<lparr>Encode = (\<lambda>j. Inr [7]), Publish = (\<lambda>q job. (None, q @ [job]))\<rparr>"
      and q = "[] :: qjob list" and d = None and ?n0.0 = 0 and ?u0.0 = "()"
      and calls = "[Start, Stop]" and ?sched1.0 = "[0, 0, 0]"
      and ?sched2.0 = "[1, 1, 1, 0, 0, 1, 1]" and ?sched3.0 = "[]", OF refl]
  by (simp add: sched_step_def init_def new_mem_def NewProducer_def IsRunning_def)

section \<open>\<open>Stop\<close> before \<open>Start\<close>\<close>

lemma inv_unstoppable_thr_step:
  assumes "inv_unstoppable (ts, m)" "i < length ts" "thr_step E (ts ! i) m = Some (pc', m')"
  shows "inv_unstoppable (ts[i := pc'], m')"
proof (cases "ts ! i")
  case StartCall
  with assms show ?thesis
    by (cases "startOnce (producer m)") (auto simp: inv_unstoppable_def cnt_update_same)
next
  case SetRunning
  with assms cnt_nth_pos [of i ts "\<lambda>pc. in_start_body pc \<and> \<not> in_loop pc"] show ?thesis
    by (auto simp: inv_unstoppable_def)
next
  case WgAdd
  with assms cnt_nth_pos [of i ts "\<lambda>pc. in_start_body pc \<and> \<not> in_loop pc"] show ?thesis
    by (auto simp: inv_unstoppable_def)
next
  case LoopHead
  with assms show ?thesis
    by (auto simp: inv_unstoppable_def cnt_update_same split: if_splits)
next
  case CallNext
  with assms show ?thesis
    by (auto simp: inv_unstoppable_def cnt_update_same next_job_def Let_def)
next
  case (GotNext j err)
  with assms show ?thesis
    by (auto simp: inv_unstoppable_def cnt_update_same after_next_producer)
next
  case DeferDone
  with assms cnt_nth_pos [of i ts "\<lambda>pc. in_start_body pc \<and> \<not> in_loop pc"] show ?thesis
    by (auto simp: inv_unstoppable_def)
next
  case StartOnceDone
  with assms cnt_nth_pos [of i ts "\<lambda>pc. in_start_body pc \<and> \<not> in_loop pc"] show ?thesis
    by (auto simp: inv_unstoppable_def)
next
  case StopCall
  with assms show ?thesis
    by (cases "stopOnce (producer m)") (auto simp: inv_unstoppable_def cnt_update_same)
next
  case ClearRunning
  with assms cnt_nth_pos [of i ts in_stop_body] show ?thesis
    by (auto simp: inv_unstoppable_def)
next
  case WgWait
  with assms cnt_nth_pos [of i ts in_stop_body] show ?thesis
    by (auto simp: inv_unstoppable_def)
next
  case StopOnceDone
  with assms cnt_nth_pos [of i ts in_stop_body] show ?thesis
    by (auto simp: inv_unstoppable_def)
qed (use assms in \<open>auto simp: inv_unstoppable_def\<close>)

lemma inv_unstoppable_sched_step: "inv_unstoppable c \<Longrightarrow> inv_unstoppable (sched_step E c i)"
  by (rule sched_step_cases) (auto intro: inv_unstoppable_thr_step)

lemma inv_unstoppable_run: "inv_unstoppable c \<Longrightarrow> inv_unstoppable (run E c sched)"
  by (induction sched arbitrary: c) (simp_all add: inv_unstoppable_sched_step)

lemma stop_then_start_reaches:
  "run E (init (new_mem q d n0 u0) (Stop # Start # calls)) [0, 0, 0, 0, 1, 1, 1] =
     (StopReturned # LoopHead # map entry calls,
      \<lparr>producer = \<lparr>Notifiers_Done = d, queue = q, running = True, startOnce = InProgress,
                   stopOnce = Finished, wg = 1\<rparr>,
       n_global = n0, observer = u0\<rparr>)"
  by (simp add: sched_step_def init_def new_mem_def NewProducer_def)

lemma start_stop_race_reaches:
  "run E (init (new_mem q d n0 u0) (Stop # Start # calls)) [1, 0, 0, 0, 0, 1, 1] =
     (StopReturned # LoopHead # map entry calls,
      \<lparr>producer = \<lparr>Notifiers_Done = d, queue = q, running = True, startOnce = InProgress,
                   stopOnce = Finished, wg = 1\<rparr>,
       n_global = n0, observer = u0\<rparr>)"
  by (simp add: sched_step_def init_def new_mem_def NewProducer_def)

lemma inv_unstoppable_facts:
  assumes "inv_unstoppable c"
  shows "IsRunning (producer (snd c)) \<and> cnt in_loop (fst c) = 1 \<and> StartReturned \<notin> set (fst c)
         \<and> stopOnce (producer (snd c)) = Finished"
  using assms cnt_zero_iff [of "\<lambda>pc. pc = StartReturned" "fst c"]
  by (auto simp: inv_unstoppable_def split_beta IsRunning_def)

text \<open>
  C2. \<open>Stop\<close> called and returned before \<open>Start\<close>: \<open>stop\<close> clears the flag and finds
  the wait group at zero; \<open>start\<close> then sets the flag and enters the loop. From there on,
  whatever further calls of \<open>Start\<close> and \<open>Stop\<close> are made and however they are
  scheduled, the producer is running, the thread is in the loop, \<open>Start\<close> has not
  returned, and the \<open>Once\<close> of \<open>Stop\<close> is used up. The same holds when \<open>Stop\<close> runs
  after \<open>Start\<close> has entered \<open>start\<close> but before \<open>p.running = true\<close> (the second
  schedule).
\<close>

theorem stop_before_start_never_stops:
  "StopReturned \<in> set (fst (run E (init (new_mem q d n0 u0) (Stop # Start # calls))
                              [0, 0, 0, 0, 1, 1, 1]))
   \<and> IsRunning (producer (snd (run E (run E (init (new_mem q d n0 u0) (Stop # Start # calls))
                                         [0, 0, 0, 0, 1, 1, 1]) sched)))
   \<and> cnt in_loop (fst (run E (run E (init (new_mem q d n0 u0) (Stop # Start # calls))
                                [0, 0, 0, 0, 1, 1, 1]) sched)) = 1
   \<and> StartReturned \<notin> set (fst (run E (run E (init (new_mem q d n0 u0) (Stop # Start # calls))
                                [0, 0, 0, 0, 1, 1, 1]) sched))
   \<and> stopOnce (producer (snd (run E (run E (init (new_mem q d n0 u0) (Stop # Start # calls))
                                         [0, 0, 0, 0, 1, 1, 1]) sched))) = Finished
   \<and> StopReturned \<in> set (fst (run E (init (new_mem q d n0 u0) (Stop # Start # calls))
                              [1, 0, 0, 0, 0, 1, 1]))
   \<and> IsRunning (producer (snd (run E (run E (init (new_mem q d n0 u0) (Stop # Start # calls))
                                         [1, 0, 0, 0, 0, 1, 1]) sched)))
   \<and> cnt in_loop (fst (run E (run E (init (new_mem q d n0 u0) (Stop # Start # calls))
                                [1, 0, 0, 0, 0, 1, 1]) sched)) = 1
   \<and> StartReturned \<notin> set (fst (run E (run E (init (new_mem q d n0 u0) (Stop # Start # calls))
                                [1, 0, 0, 0, 0, 1, 1]) sched))"
proof -
  let ?c1 = "run E (init (new_mem q d n0 u0) (Stop # Start # calls)) [0, 0, 0, 0, 1, 1, 1]"
  let ?c2 = "run E (init (new_mem q d n0 u0) (Stop # Start # calls)) [1, 0, 0, 0, 0, 1, 1]"
  have ret1: "StopReturned \<in> set (fst ?c1)"
    by (simp only: stop_then_start_reaches) simp
  have ret2: "StopReturned \<in> set (fst ?c2)"
    by (simp only: start_stop_race_reaches) simp
  have "inv_unstoppable ?c1"
    by (simp only: stop_then_start_reaches) (simp add: inv_unstoppable_def cnt_entry)
  then have u1: "inv_unstoppable (run E ?c1 sched)" by (rule inv_unstoppable_run)
  have "inv_unstoppable ?c2"
    by (simp only: start_stop_race_reaches) (simp add: inv_unstoppable_def cnt_entry)
  then have u2: "inv_unstoppable (run E ?c2 sched)" by (rule inv_unstoppable_run)
  from inv_unstoppable_facts [OF u1] inv_unstoppable_facts [OF u2] ret1 ret2
  show ?thesis by blast
qed

text \<open>
  C1. A \<open>Stop\<close> called while the loop is running, after an earlier \<open>Stop\<close> that ran
  before \<open>Start\<close>: with the calls \<open>Stop\<close>, \<open>Start\<close>, \<open>Stop\<close>, let the first
  \<open>Stop\<close> return and \<open>Start\<close> reach its loop. Then \<open>Start\<close> has been called, the
  loop is running and \<open>IsRunning\<close> is true. The second \<open>Stop\<close> finds its \<open>Once\<close>
  used up and returns in one step: the thread of \<open>Start\<close> is still at the loop head,
  \<open>IsRunning\<close> is still true, and the producer has not changed to not running at
  any step. The loop stays in flight and \<open>IsRunning\<close> true along every continuation.
\<close>

theorem stop_returns_while_loop_runs:
  "(\<exists>pc\<in>set (fst (run E (init (new_mem q d n0 u0) [Stop, Start, Stop]) [0, 0, 0, 0, 1, 1, 1])). in_loop pc)
   \<and> IsRunning (producer (snd (run E (init (new_mem q d n0 u0) [Stop, Start, Stop]) [0, 0, 0, 0, 1, 1, 1])))
   \<and> fst (run E (init (new_mem q d n0 u0) [Stop, Start, Stop]) [0, 0, 0, 0, 1, 1, 1]) ! 2 = StopCall
   \<and> fst (run E (init (new_mem q d n0 u0) [Stop, Start, Stop]) [0, 0, 0, 0, 1, 1, 1, 2]) = [StopReturned, LoopHead, StopReturned]
   \<and> IsRunning (producer (snd (run E (init (new_mem q d n0 u0) [Stop, Start, Stop]) [0, 0, 0, 0, 1, 1, 1, 2])))
   \<and> stops_running E (init (new_mem q d n0 u0) [Stop, Start, Stop]) [0, 0, 0, 0, 1, 1, 1, 2] = 0
   \<and> IsRunning (producer (snd (run E (run E (init (new_mem q d n0 u0) [Stop, Start, Stop]) [0, 0, 0, 0, 1, 1, 1, 2]) sched)))
   \<and> cnt in_loop (fst (run E (run E (init (new_mem q d n0 u0) [Stop, Start, Stop]) [0, 0, 0, 0, 1, 1, 1, 2]) sched)) = 1
   \<and> stops_running E (run E (init (new_mem q d n0 u0) [Stop, Start, Stop]) [0, 0, 0, 0, 1, 1, 1, 2]) sched = 0"
proof -
  let ?c1 = "run E (init (new_mem q d n0 u0) [Stop, Start, Stop]) [0, 0, 0, 0, 1, 1, 1]"
  let ?c2 = "run E (init (new_mem q d n0 u0) [Stop, Start, Stop]) [0, 0, 0, 0, 1, 1, 1, 2]"
  have c1: "?c1 = ([StopReturned, LoopHead, StopCall],
      \<lparr>producer = \<lparr>Notifiers_Done = d, queue = q, running = True, startOnce = InProgress,
                   stopOnce = Finished, wg = 1\<rparr>,
       n_global = n0, observer = u0\<rparr>)"
    using stop_then_start_reaches [of E q d n0 u0 "[Stop]"] by simp
  have c2: "?c2 = ([StopReturned, LoopHead, StopReturned],
      \<lparr>producer = \<lparr>Notifiers_Done = d, queue = q, running = True, startOnce = InProgress,
                   stopOnce = Finished, wg = 1\<rparr>,
       n_global = n0, observer = u0\<rparr>)"
    by (simp add: sched_step_def init_def new_mem_def NewProducer_def)
  have a: "(\<exists>pc\<in>set (fst ?c1). in_loop pc) \<and> IsRunning (producer (snd ?c1))
      \<and> fst ?c1 ! 2 = StopCall"
    by (simp only: c1) (simp add: IsRunning_def)
  have b: "fst ?c2 = [StopReturned, LoopHead, StopReturned] \<and> IsRunning (producer (snd ?c2))"
    by (simp only: c2) (simp add: IsRunning_def)
  have n: "stops_running E (init (new_mem q d n0 u0) [Stop, Start, Stop]) [0, 0, 0, 0, 1, 1, 1, 2] = 0"
    by (simp add: sched_step_def init_def new_mem_def NewProducer_def IsRunning_def)
  have "inv_unstoppable ?c2"
    by (simp only: c2) (simp add: inv_unstoppable_def)
  then have u: "inv_unstoppable (run E ?c2 sched)" by (rule inv_unstoppable_run)
  have k: "stops_running E c sched = 0" if "inv_unstoppable c" for c :: "('a, 'b) config"
    using that
  proof (induction sched arbitrary: c)
    case Nil
    show ?case by simp
  next
    case (Cons i sched)
    from Cons.prems have s: "inv_unstoppable (sched_step E c i)"
      by (rule inv_unstoppable_sched_step)
    from inv_unstoppable_facts [OF s] Cons.IH [OF s] show ?case by simp
  qed
  from \<open>inv_unstoppable ?c2\<close> have z: "stops_running E ?c2 sched = 0" by (rule k)
  from a b n z inv_unstoppable_facts [OF u] show ?thesis by blast
qed

section \<open>Source errors\<close>

text \<open>
  C4. At a source error the iteration leaves the memory as it is (nothing is encoded or
  published, no notifier is called) and the thread is back at the loop head, from where it
  goes on to the next call of \<open>next\<close> when the flag is set. And while no call of
  \<open>Stop\<close> has begun its body, in every configuration reached from a new producer, a
  thread in the loop finds the producer running and no thread has left the loop.
\<close>

theorem source_error_continues:
  "after_next E j (Some e) m = m
   \<and> thr_step E (GotNext j (Some e)) m = Some (LoopHead, m)
   \<and> thr_step E LoopHead m = Some (if running (producer m) then CallNext else DeferDone, m)
   \<and> (stopOnce (producer (snd (run E (init (new_mem q d n0 u0) calls) sched))) = Fresh \<longrightarrow>
        ((\<exists>pc\<in>set (fst (run E (init (new_mem q d n0 u0) calls) sched)). in_loop pc) \<longrightarrow>
           IsRunning (producer (snd (run E (init (new_mem q d n0 u0) calls) sched))))
        \<and> DeferDone \<notin> set (fst (run E (init (new_mem q d n0 u0) calls) sched))
        \<and> StartOnceDone \<notin> set (fst (run E (init (new_mem q d n0 u0) calls) sched))
        \<and> StartReturned \<notin> set (fst (run E (init (new_mem q d n0 u0) calls) sched)))"
proof -
  let ?c = "run E (init (new_mem q d n0 u0) calls) sched"
  have i0: "inv0 ?c" by (rule inv0_run) (rule inv0_init)
  have reach: "((\<exists>pc\<in>set (fst ?c). in_loop pc) \<longrightarrow> IsRunning (producer (snd ?c)))
      \<and> DeferDone \<notin> set (fst ?c) \<and> StartOnceDone \<notin> set (fst ?c) \<and> StartReturned \<notin> set (fst ?c)"
    if fresh: "stopOnce (producer (snd ?c)) = Fresh"
  proof -
    from i0 fresh have u: "cnt left_loop (fst ?c) = 0" "startOnce (producer (snd ?c)) \<noteq> Finished"
      "0 < cnt past_set (fst ?c) \<longrightarrow> running (producer (snd ?c))"
      by (simp_all add: inv0_def inv_unstopped_def split_beta)
    from i0 u(2) have r: "cnt (\<lambda>pc. pc = StartReturned) (fst ?c) = 0"
      by (simp add: inv0_def inv_start_def split_beta)
    have "cnt in_loop (fst ?c) \<le> cnt past_set (fst ?c)"
      by (rule cnt_mono) (simp add: in_loop_imp)
    with u(3) have a: "(\<exists>pc\<in>set (fst ?c). in_loop pc) \<longrightarrow> IsRunning (producer (snd ?c))"
      by (auto simp: IsRunning_def cnt_pos_iff [symmetric])
    from u(1) have b: "DeferDone \<notin> set (fst ?c) \<and> StartOnceDone \<notin> set (fst ?c)"
      by (auto simp: cnt_zero_iff)
    from r have c: "StartReturned \<notin> set (fst ?c)"
      by (auto simp: cnt_zero_iff)
    from a b c show ?thesis by simp
  qed
  show ?thesis using reach by (simp add: after_next_def)
qed

theorem source_error_continues_witness:
  "stopOnce (producer (snd (run \<lparr>Encode = (\<lambda>j. Inr [7]), Publish = (\<lambda>q job. (None, q @ [job]))\<rparr> (init (new_mem ([] :: qjob list) None 0 ()) [Start]) [0, 0, 0, 0]))) = Fresh
   \<and> (\<exists>pc\<in>set (fst (run \<lparr>Encode = (\<lambda>j. Inr [7]), Publish = (\<lambda>q job. (None, q @ [job]))\<rparr> (init (new_mem ([] :: qjob list) None 0 ()) [Start]) [0, 0, 0, 0])). in_loop pc)
   \<and> IsRunning (producer (snd (run \<lparr>Encode = (\<lambda>j. Inr [7]), Publish = (\<lambda>q job. (None, q @ [job]))\<rparr> (init (new_mem ([] :: qjob list) None 0 ()) [Start]) [0, 0, 0, 0])))
   \<and> DeferDone \<notin> set (fst (run \<lparr>Encode = (\<lambda>j. Inr [7]), Publish = (\<lambda>q job. (None, q @ [job]))\<rparr> (init (new_mem ([] :: qjob list) None 0 ()) [Start]) [0, 0, 0, 0]))
   \<and> after_next \<lparr>Encode = (\<lambda>j. Inr [7]), Publish = (\<lambda>q job. (None, q @ [job]))\<rparr> \<lparr>RepositoryID = 1\<rparr> (Some (Error ''source'')) (new_mem ([] :: qjob list) None 0 ()) = (new_mem ([] :: qjob list) None 0 ())"
  using source_error_continues [where E = "\<lparr>Encode = (\<lambda>j. Inr [7]), Publish = (\<lambda>q job. (None, q @ [job]))\<rparr>"
      and q = "[] :: qjob list" and d = None and ?n0.0 = 0 and ?u0.0 = "()"
      and calls = "[Start]" and sched = "[0, 0, 0, 0]"
      and j = "\<lparr>RepositoryID = 1\<rparr>" and e = "Error ''source''" and m = "(new_mem ([] :: qjob list) None 0 ())"]
  by (simp add: sched_step_def init_def new_mem_def NewProducer_def IsRunning_def)

section \<open>The backend of the rooted transactioner\<close>

lemma HasPrefix_iff: "HasPrefix s p \<longleftrightarrow> (\<exists>rest. s = p @ rest)"
proof
  assume "HasPrefix s p"
  then have "s = p @ drop (length p) s"
    by (metis HasPrefix_def append_take_drop_id)
  then show "\<exists>rest. s = p @ rest" ..
next
  assume "\<exists>rest. s = p @ rest"
  then show "HasPrefix s p" by (auto simp: HasPrefix_def)
qed

text \<open>
  C7. Whenever \<open>newRootedTransactioner\<close> returns a transactioner, its one backend is the
  HDFS one exactly when \<open>RootRepositoriesDir\<close> has the prefix \<open>hdfs://\<close>, and without the
  prefix it is the local file system rooted at that directory. \<open>HasPrefix\<close> is the prefix
  test. When \<open>Chroot\<close> succeeds a transactioner is returned in both cases, for the prefix
  provided \<open>url.Parse\<close> succeeds; the errors of \<open>Chroot\<close> and \<open>url.Parse\<close> are returned
  instead of a transactioner.
\<close>

theorem backend_selected_by_prefix:
  "(newRootedTransactioner L c tmp = Inr tx \<longrightarrow>
      (is_hdfs (backend tx) \<longleftrightarrow> HasPrefix (RootRepositoriesDir c) ''hdfs://'')
      \<and> (\<not> HasPrefix (RootRepositoriesDir c) ''hdfs://'' \<longrightarrow>
            backend tx = LocalFs (OSFS (RootRepositoriesDir c))))
   \<and> (HasPrefix (RootRepositoriesDir c) ''hdfs://'' \<longleftrightarrow>
        (\<exists>rest. RootRepositoriesDir c = ''hdfs://'' @ rest))
   \<and> (Chroot L tmp ''transactioner'' = Inr tmp' \<and> \<not> HasPrefix (RootRepositoriesDir c) ''hdfs://'' \<longrightarrow>
        (\<exists>tx. newRootedTransactioner L c tmp = Inr tx
              \<and> backend tx = LocalFs (OSFS (RootRepositoriesDir c))))
   \<and> (Chroot L tmp ''transactioner'' = Inr tmp' \<and> HasPrefix (RootRepositoriesDir c) ''hdfs://''
        \<and> url_Parse L (RootRepositoriesDir c) = Inr u \<longrightarrow>
        (\<exists>tx. newRootedTransactioner L c tmp = Inr tx
              \<and> backend tx = HDFSFs (url_String L (u\<lparr>Path := ''''\<rparr>)) (Path u)
                               (RootRepositoriesTempDir c)))
   \<and> (Chroot L tmp ''transactioner'' = Inr tmp' \<and> HasPrefix (RootRepositoriesDir c) ''hdfs://''
        \<and> url_Parse L (RootRepositoriesDir c) = Inl e \<longrightarrow>
        newRootedTransactioner L c tmp = Inl e)"
  by (auto simp: newRootedTransactioner_def HasPrefix_iff split: sum.splits)

theorem backend_selected_by_prefix_witness:
  "HasPrefix ''hdfs://namenode:8020/borges'' ''hdfs://''
   \<and> newRootedTransactioner \<lparr>Chroot = (\<lambda>fs p. case fs of OSFS r \<Rightarrow> Inr (OSFS (r @ ''/'' @ p))),
          url_Parse = (\<lambda>s. Inr \<lparr>Scheme = ''hdfs'', Host = ''namenode:8020'', Path = ''/borges''\<rparr>),
          url_String = (\<lambda>u. Scheme u @ ''://'' @ Host u @ Path u)\<rparr>
        \<lparr>Locking = ''local:'', Workers = 1, Timeout = ''10h'',
         RootRepositoriesDir = ''hdfs://namenode:8020/borges'',
         RootRepositoriesTempDir = ''/tmp/root-repositories-dot-copy'', BucketSize = 0,
         TempDir = ''/tmp/borges'', CleanTempDir = False\<rparr>
        (OSFS ''/tmp/borges/1'') =
       Inr (SivaRootedTransactioner
         \<lparr>local_fs = OSFS ''/tmp/borges/1/transactioner'',
          remote_fs = HDFSFs ''hdfs://namenode:8020'' ''/borges''
                        ''/tmp/root-repositories-dot-copy'',
          bucket = 0\<rparr>)
   \<and> \<not> HasPrefix ''/tmp/root-repositories'' ''hdfs://''
   \<and> newRootedTransactioner \<lparr>Chroot = (\<lambda>fs p. case fs of OSFS r \<Rightarrow> Inr (OSFS (r @ ''/'' @ p))),
          url_Parse = (\<lambda>s. Inr \<lparr>Scheme = ''hdfs'', Host = ''namenode:8020'', Path = ''/borges''\<rparr>),
          url_String = (\<lambda>u. Scheme u @ ''://'' @ Host u @ Path u)\<rparr>
        \<lparr>Locking = ''local:'', Workers = 1, Timeout = ''10h'',
         RootRepositoriesDir = ''/tmp/root-repositories'',
         RootRepositoriesTempDir = ''/tmp/root-repositories-dot-copy'', BucketSize = 0,
         TempDir = ''/tmp/borges'', CleanTempDir = False\<rparr>
        (OSFS ''/tmp/borges/1'') =
       Inr (SivaRootedTransactioner
         \<lparr>local_fs = OSFS ''/tmp/borges/1/transactioner'',
          remote_fs = LocalFs (OSFS ''/tmp/root-repositories''),
          bucket = 0\<rparr>)"
  using
    backend_selected_by_prefix [where L = "\<lparr>Chroot = (\<lambda>fs p. case fs of OSFS r \<Rightarrow> Inr (OSFS (r @ ''/'' @ p))),
          url_Parse = (\<lambda>s. Inr \<lparr>Scheme = ''hdfs'', Host = ''namenode:8020'', Path = ''/borges''\<rparr>),
          url_String = (\<lambda>u. Scheme u @ ''://'' @ Host u @ Path u)\<rparr>"
      and c = "\<lparr>Locking = ''local:'', Workers = 1, Timeout = ''10h'',
         RootRepositoriesDir = ''hdfs://namenode:8020/borges'',
         RootRepositoriesTempDir = ''/tmp/root-repositories-dot-copy'', BucketSize = 0,
         TempDir = ''/tmp/borges'', CleanTempDir = False\<rparr>"
      and tmp = "OSFS ''/tmp/borges/1''" and tmp' = "OSFS ''/tmp/borges/1/transactioner''"
      and u = "\<lparr>Scheme = ''hdfs'', Host = ''namenode:8020'', Path = ''/borges''\<rparr>"]
    backend_selected_by_prefix [where L = "\<lparr>Chroot = (\<lambda>fs p. case fs of OSFS r \<Rightarrow> Inr (OSFS (r @ ''/'' @ p))),
          url_Parse = (\<lambda>s. Inr \<lparr>Scheme = ''hdfs'', Host = ''namenode:8020'', Path = ''/borges''\<rparr>),
          url_String = (\<lambda>u. Scheme u @ ''://'' @ Host u @ Path u)\<rparr>"
      and c = "\<lparr>Locking = ''local:'', Workers = 1, Timeout = ''10h'',
         RootRepositoriesDir = ''/tmp/root-repositories'',
         RootRepositoriesTempDir = ''/tmp/root-repositories-dot-copy'', BucketSize = 0,
         TempDir = ''/tmp/borges'', CleanTempDir = False\<rparr>"
      and tmp = "OSFS ''/tmp/borges/1''" and tmp' = "OSFS ''/tmp/borges/1/transactioner''"]
  by (simp add: HasPrefix_def newRootedTransactioner_def)

end
